theory Spec2Isabelle
  imports Complex_Main
begin

section \<open>The narrated-video export of the Storybook page component\<close>

text \<open>
  This theory embeds \<^verbatim>\<open>downloadVideo\<close> of \<^verbatim>\<open>src/app/page.tsx\<close>. The function is a
  sequence of calls to collaborators that live outside the repository (the narration
  endpoint, html2canvas, FFmpeg compiled to WebAssembly, the browser). Every such call is
  recorded, with its outcome, in a list of events; what a collaborator answers is decided
  by an oracle that sees the events so far. A rejected promise or a thrown exception is
  the outcome \<open>Throws\<close>, and the \<^verbatim>\<open>try/catch/finally\<close> of the source is written out.

  JavaScript numbers are modelled as real numbers (no floating-point rounding). A template
  literal that interpolates such a number is kept as a list of pieces, so that the number
  stays a number; the loop index \<^verbatim>\<open>${i}\<close> is rendered in decimal.
\<close>

subsection \<open>Data\<close>

type_synonym bytes = string

record StoryPage =
  page_text :: string
  imagePrompt :: string
  imageUrl :: "string option"
  audioUrl :: "string option"

record StoryData =
  title :: string
  pages :: "StoryPage list"
  prompt :: string

text \<open>An entry of the \<^verbatim>\<open>images\<close> array: \<^verbatim>\<open>{ blob: Blob; name: string }\<close>.\<close>

record image =
  blob :: bytes
  name :: string

datatype piece = Txt string | Num real

type_synonym arg = "piece list"

text \<open>A plain string argument of \<^verbatim>\<open>ffmpeg.exec\<close>.\<close>

definition S :: "string \<Rightarrow> arg" where
  "S s = [Txt s]"

datatype call =
    GenerateAudio string
  | Html2canvas nat
  | ToBlobURL string string
  | Load string string
  | WriteFile string bytes
  | Fetch string
  | Exec "arg list"
  | ReadFile string

datatype outcome = Throws string | Returns bytes

datatype event =
    Ext call outcome
  | SetBusy bool
  | Alert string
  | Download string bytes

type_synonym environment = "event list \<Rightarrow> call \<Rightarrow> outcome"

type_synonym 'a io = "event list \<Rightarrow> (string + 'a) \<times> event list"

subsection \<open>Awaiting, sequencing and \<^verbatim>\<open>Promise.all\<close>\<close>

definition ext_call :: "environment \<Rightarrow> call \<Rightarrow> bytes io" where
  "ext_call env c tr =
     (case env tr c of
        Throws msg \<Rightarrow> (Inl msg, tr @ [Ext c (Throws msg)])
      | Returns b \<Rightarrow> (Inr b, tr @ [Ext c (Returns b)]))"

definition return_io :: "'a \<Rightarrow> 'a io" where
  "return_io x tr = (Inr x, tr)"

definition throw_io :: "string \<Rightarrow> 'a io" where
  "throw_io msg tr = (Inl msg, tr)"

definition bind_io :: "'a io \<Rightarrow> ('a \<Rightarrow> 'b io) \<Rightarrow> 'b io" where
  "bind_io m f tr =
     (case m tr of
        (Inl e, tr1) \<Rightarrow> (Inl e, tr1)
      | (Inr x, tr1) \<Rightarrow> f x tr1)"

text \<open>
  \<^verbatim>\<open>Promise.all(xs.map(async ...))\<close>: every element's action is started, whatever the
  others answer, and the whole rejects when one of them does. The browser interleaves the
  actions and reports the rejection that settles first; the model runs them in array order
  and reports the first rejection in that order.
\<close>

fun promise_all :: "'a io list \<Rightarrow> ('a list) io" where
  "promise_all [] tr = (Inr [], tr)"
| "promise_all (m # ms) tr =
     (case m tr of (r, tr1) \<Rightarrow>
        (case promise_all ms tr1 of (rs, tr2) \<Rightarrow>
           ((case r of
               Inl e \<Rightarrow> Inl e
             | Inr x \<Rightarrow> (case rs of Inl e \<Rightarrow> Inl e | Inr xs \<Rightarrow> Inr (x # xs))),
            tr2)))"

subsection \<open>Strings\<close>

definition digit :: "nat \<Rightarrow> char" where
  "digit d = ''0123456789'' ! d"

text \<open>The decimal rendering of an array index inside a template literal.\<close>

function show_nat :: "nat \<Rightarrow> string" where
  "show_nat n = (if n < 10 then [digit n] else show_nat (n div 10) @ [digit (n mod 10)])"
  by pat_completeness auto
termination
  by (relation "measure (\<lambda>n. n)") auto

declare show_nat.simps [simp del]

text \<open>\<^verbatim>\<open>Array.prototype.join\<close>.\<close>

fun join :: "string \<Rightarrow> string list \<Rightarrow> string" where
  "join sep [] = []"
| "join sep [x] = x"
| "join sep (x # y # ys) = x @ sep @ join sep (y # ys)"

definition newline :: string where
  "newline = [CHR 0x0A]"

subsection \<open>The steps of \<^verbatim>\<open>downloadVideo\<close>\<close>

text \<open>
  Step 1: one narration request per page. The outcome \<open>Throws\<close> stands for a rejected
  \<^verbatim>\<open>fetch\<close>, for a response that is not ok (the message is the response text) and for a
  failing \<^verbatim>\<open>res.blob()\<close>. The object URL made from the blob is modelled by the bytes it
  designates.
\<close>

definition narrate :: "environment \<Rightarrow> StoryPage \<Rightarrow> StoryPage io" where
  "narrate env p =
     bind_io (ext_call env (GenerateAudio (page_text p)))
       (\<lambda>url. return_io (p\<lparr>audioUrl := Some url\<rparr>))"

definition generate_narration :: "environment \<Rightarrow> StoryPage list \<Rightarrow> (StoryPage list) io" where
  "generate_narration env ps = promise_all (map (narrate env) ps)"

text \<open>
  Step 2: the page elements found under the book element are captured one after the
  other; \<open>Html2canvas i\<close> stands for \<^verbatim>\<open>html2canvas\<close>, \<^verbatim>\<open>toDataURL\<close> and the fetch of the
  data URL for element \<open>i\<close>, and returns the PNG bytes.
\<close>

function capture_pages :: "environment \<Rightarrow> nat \<Rightarrow> nat \<Rightarrow> image list \<Rightarrow> (image list) io" where
  "capture_pages env n i images tr =
     (if i < n then
        (case ext_call env (Html2canvas i) tr of
           (Inl e, tr1) \<Rightarrow> (Inl e, tr1)
         | (Inr b, tr1) \<Rightarrow>
             capture_pages env n (Suc i)
               (images @ [\<lparr>blob = b, name = ''page'' @ show_nat i @ ''.png''\<rparr>]) tr1)
      else (Inr images, tr))"
  by pat_completeness auto
termination
  by (relation "measure (\<lambda>(env, n, i, images, tr). n - i)") auto

declare capture_pages.simps [simp del]

text \<open>Step 3: the FFmpeg core is fetched and loaded.\<close>

definition coreURL :: string where
  "coreURL = ''https://unpkg.com/@ffmpeg/core@0.12.6/dist/ffmpeg-core.js''"

definition wasmURL :: string where
  "wasmURL = ''https://unpkg.com/@ffmpeg/core@0.12.6/dist/ffmpeg-core.wasm''"

definition load_ffmpeg :: "environment \<Rightarrow> bytes io" where
  "load_ffmpeg env =
     bind_io (ext_call env (ToBlobURL coreURL ''text/javascript''))
       (\<lambda>c. bind_io (ext_call env (ToBlobURL wasmURL ''application/wasm''))
          (\<lambda>w. ext_call env (Load c w)))"

text \<open>Step 4: the images and the narration clips are written into the FFmpeg file system.\<close>

definition write_images :: "environment \<Rightarrow> image list \<Rightarrow> (bytes list) io" where
  "write_images env images =
     promise_all (map (\<lambda>im. ext_call env (WriteFile (name im) (blob im))) images)"

text \<open>
  \<^verbatim>\<open>fetch(p.audioUrl!)\<close> reads the blob back from its object URL. Step 1 sets
  \<^verbatim>\<open>audioUrl\<close> on every page, so the \<open>None\<close> branch is never taken in \<open>downloadVideo\<close>.
\<close>

definition write_audio :: "environment \<Rightarrow> nat \<Rightarrow> StoryPage \<Rightarrow> bytes io" where
  "write_audio env i p =
     (case audioUrl p of
        None \<Rightarrow> throw_io ''Failed to fetch''
      | Some b \<Rightarrow> ext_call env (WriteFile (''audio'' @ show_nat i @ ''.mp3'') b))"

definition write_audios :: "environment \<Rightarrow> StoryPage list \<Rightarrow> (bytes list) io" where
  "write_audios env ps =
     promise_all (map (\<lambda>(i, p). write_audio env i p) (zip [0..<length ps] ps))"

text \<open>Step 5: the page-turn sound, then one encode per page.\<close>

definition whooshURL :: string where
  "whooshURL = ''https://cdn.jsdelivr.net/gh/mattt/ffmpeg-page-turn@main/whoosh.mp3''"

definition load_whoosh :: "environment \<Rightarrow> bytes io" where
  "load_whoosh env =
     bind_io (ext_call env (Fetch whooshURL))
       (\<lambda>whoosh. ext_call env (WriteFile ''whoosh.mp3'' whoosh))"

definition filter_complex :: "real \<Rightarrow> real \<Rightarrow> arg" where
  "filter_complex holdTime fadeTime =
     [Txt ''[0:v]format=yuv420p,fade=t=out:st='', Num (holdTime - fadeTime),
      Txt '':d='', Num fadeTime,
      Txt ''[v1];[1:a]adelay=0|0[a1];[2:a]adelay='', Num ((holdTime - fadeTime) * 1000),
      Txt ''|'', Num ((holdTime - fadeTime) * 1000),
      Txt ''[a2];[a1][a2]amix=inputs=2:duration=shortest[aout]'']"

definition segment_args :: "string \<Rightarrow> nat \<Rightarrow> real \<Rightarrow> real \<Rightarrow> string \<Rightarrow> arg list" where
  "segment_args imageName i holdTime fadeTime outName =
     [S ''-loop'', S ''1'',
      S ''-i'', S imageName,
      S ''-i'', S (''audio'' @ show_nat i @ ''.mp3''),
      S ''-i'', S ''whoosh.mp3'',
      S ''-filter_complex'', filter_complex holdTime fadeTime,
      S ''-map'', S ''[v1]'',
      S ''-map'', S ''[aout]'',
      S ''-c:v'', S ''libx264'',
      S ''-c:a'', S ''aac'',
      S ''-shortest'',
      S outName]"

text \<open>
  Reading \<^verbatim>\<open>images[i].name\<close> when \<^verbatim>\<open>images[i]\<close> is undefined throws a TypeError, which the
  enclosing \<^verbatim>\<open>catch\<close> receives like any other error. The wording of its message depends
  on the browser; nothing below depends on it.
\<close>

definition type_error :: string where
  "type_error = ''Cannot read properties of undefined (reading 'name')''"

function build_segments ::
  "environment \<Rightarrow> real \<Rightarrow> real \<Rightarrow> image list \<Rightarrow> nat \<Rightarrow> nat \<Rightarrow> string list \<Rightarrow> (string list) io" where
  "build_segments env holdTime fadeTime images n i listFile tr =
     (if i < n then
        (if i < length images then
           (let imageName = name (images ! i);
                outName = ''seg'' @ show_nat i @ ''.mp4''
            in case ext_call env (Exec (segment_args imageName i holdTime fadeTime outName)) tr of
                 (Inl e, tr1) \<Rightarrow> (Inl e, tr1)
               | (Inr r, tr1) \<Rightarrow>
                   build_segments env holdTime fadeTime images n (Suc i)
                     (listFile @ [''file '' @ outName]) tr1)
         else (Inl type_error, tr))
      else (Inr listFile, tr))"
  by pat_completeness auto
termination
  by (relation "measure (\<lambda>(env, h, f, images, n, i, listFile, tr). n - i)") auto

declare build_segments.simps [simp del]

text \<open>Step 6: the concat list, the final video and its download.\<close>

definition concat_args :: "arg list" where
  "concat_args =
     [S ''-f'', S ''concat'', S ''-safe'', S ''0'', S ''-i'', S ''list.txt'',
      S ''-c'', S ''copy'', S ''output.mp4'']"

definition or_default :: "string \<Rightarrow> string \<Rightarrow> string" where
  "or_default s d = (if s = [] then d else s)"

definition offer_download :: "string \<Rightarrow> bytes \<Rightarrow> unit io" where
  "offer_download file data tr = (Inr (), tr @ [Download file data])"

definition concat_and_download :: "environment \<Rightarrow> StoryData \<Rightarrow> string list \<Rightarrow> unit io" where
  "concat_and_download env story listFile =
     bind_io (ext_call env (WriteFile ''list.txt'' (join newline listFile)))
       (\<lambda>_. bind_io (ext_call env (Exec concat_args))
          (\<lambda>_. bind_io (ext_call env (ReadFile ''output.mp4''))
             (\<lambda>data. offer_download (or_default (title story) ''storybook'' @ ''.mp4'') data)))"

text \<open>The body of the \<^verbatim>\<open>try\<close> block.\<close>

definition export_video :: "environment \<Rightarrow> StoryData \<Rightarrow> nat \<Rightarrow> real \<Rightarrow> real \<Rightarrow> unit io" where
  "export_video env story pageEls holdTime fadeTime =
     bind_io (generate_narration env (pages story))
       (\<lambda>pagesWithAudio. bind_io (capture_pages env pageEls 0 [])
          (\<lambda>images. bind_io (load_ffmpeg env)
             (\<lambda>_. bind_io (write_images env images)
                (\<lambda>_. bind_io (write_audios env pagesWithAudio)
                   (\<lambda>_. bind_io (load_whoosh env)
                      (\<lambda>_. bind_io
                         (build_segments env holdTime fadeTime images (length pagesWithAudio) 0
                            [''ffconcat version 1.0''])
                         (concat_and_download env story)))))))"

text \<open>
  \<open>downloadVideo\<close> reads the component state: the story (\<open>None\<close> when none is loaded),
  the book element (\<open>None\<close> when \<^verbatim>\<open>bookRef.current\<close> is null, otherwise the number of
  \<^verbatim>\<open>.story-page\<close> elements under it) and the two timing values. Its result is the list of
  events it causes, in order.
\<close>

definition downloadVideo ::
  "environment \<Rightarrow> StoryData option \<Rightarrow> nat option \<Rightarrow> real \<Rightarrow> real \<Rightarrow> event list" where
  "downloadVideo env story bookRef holdTime fadeTime =
     (case story of
        None \<Rightarrow> []
      | Some st \<Rightarrow>
          (case bookRef of
             None \<Rightarrow> []
           | Some pageEls \<Rightarrow>
               (case export_video env st pageEls holdTime fadeTime [SetBusy True] of
                  (Inl msg, tr) \<Rightarrow>
                    tr @ [Alert (or_default msg ''Failed to export video''), SetBusy False]
                | (Inr _, tr) \<Rightarrow> tr @ [SetBusy False])))"

section \<open>Notions used in the statements\<close>

subsection \<open>Names, commands and the concat list\<close>

text \<open>
  The file names the loop gives to page \<open>i\<close>, the command it runs for that page, and the
  lines of the concat list after \<open>n\<close> pages.
\<close>

definition page_name :: "nat \<Rightarrow> string" where
  "page_name i = ''page'' @ show_nat i @ ''.png''"

definition seg_name :: "nat \<Rightarrow> string" where
  "seg_name i = ''seg'' @ show_nat i @ ''.mp4''"

definition segment_cmd :: "real \<Rightarrow> real \<Rightarrow> nat \<Rightarrow> arg list" where
  "segment_cmd holdTime fadeTime i = segment_args (page_name i) i holdTime fadeTime (seg_name i)"

definition manifest_lines :: "nat \<Rightarrow> string list" where
  "manifest_lines n = ''ffconcat version 1.0'' # map (\<lambda>i. ''file '' @ seg_name i) [0..<n]"

text \<open>
  Splitting a text at a separator character, to read a written file line by line.
\<close>

fun split_on :: "char \<Rightarrow> string \<Rightarrow> string list" where
  "split_on c [] = [[]]"
| "split_on c (x # xs) =
     (if x = c then [] # split_on c xs
      else (case split_on c xs of l # ls \<Rightarrow> (x # l) # ls | [] \<Rightarrow> [[x]]))"

text \<open>
  The value that follows an option in a command line (the first occurrence).
\<close>

fun option_value :: "string \<Rightarrow> arg list \<Rightarrow> arg option" where
  "option_value key (a # b # rest) = (if a = S key then Some b else option_value key (b # rest))"
| "option_value key rest = None"

subsection \<open>Reading a run\<close>

text \<open>
  The \<^verbatim>\<open>ffmpeg.exec\<close> calls of a run, in order, each with its outcome; the output
  files of the per-page encodes that returned; the calls made on the \<^verbatim>\<open>ffmpeg\<close>
  object; an environment in which no call ever throws.
\<close>

definition exec_events :: "event list \<Rightarrow> (arg list \<times> outcome) list" where
  "exec_events tr = concat (map (\<lambda>e. case e of Ext (Exec args) r \<Rightarrow> [(args, r)] | _ \<Rightarrow> []) tr)"

fun returns :: "outcome \<Rightarrow> bool" where
  "returns (Returns b) = True"
| "returns (Throws msg) = False"

definition produced_segments :: "event list \<Rightarrow> arg list" where
  "produced_segments tr =
     map (\<lambda>(a, r). last a) (filter (\<lambda>(a, r). a \<noteq> concat_args \<and> returns r) (exec_events tr))"


definition never_throws :: "environment \<Rightarrow> bool" where
  "never_throws env \<longleftrightarrow> (\<forall>tr c. \<exists>b. env tr c = Returns b)"

subsection \<open>The shape of a run\<close>

text \<open>
  A run consists of the requests that gather the page assets (narration and captures),
  the calls that load FFmpeg and stage the files, the per-page encodes, and the closing
  steps. The following predicates and event lists describe these parts.
\<close>

definition narration_event :: "event \<Rightarrow> bool" where
  "narration_event e \<longleftrightarrow> (\<exists>t r. e = Ext (GenerateAudio t) r)"

definition capture_event :: "event \<Rightarrow> bool" where
  "capture_event e \<longleftrightarrow> (\<exists>i r. e = Ext (Html2canvas i) r)"

definition asset_event :: "event \<Rightarrow> bool" where
  "asset_event e \<longleftrightarrow> narration_event e \<or> capture_event e"

definition returned :: "event \<Rightarrow> bool" where
  "returned e \<longleftrightarrow> (\<exists>c b. e = Ext c (Returns b))"

definition setup_event :: "event \<Rightarrow> bool" where
  "setup_event e \<longleftrightarrow>
     (\<exists>u t r. e = Ext (ToBlobURL u t) r) \<or> (\<exists>c w r. e = Ext (Load c w) r) \<or>
     (\<exists>n b r. e = Ext (WriteFile n b) r \<and> n \<noteq> ''list.txt'') \<or> (\<exists>u r. e = Ext (Fetch u) r)"

definition seg_events :: "real \<Rightarrow> real \<Rightarrow> (nat \<Rightarrow> bytes) \<Rightarrow> nat \<Rightarrow> nat \<Rightarrow> event list" where
  "seg_events holdTime fadeTime outs i k =
     map (\<lambda>j. Ext (Exec (segment_cmd holdTime fadeTime j)) (Returns (outs j))) [i..<k]"

definition seg_execs :: "real \<Rightarrow> real \<Rightarrow> (nat \<Rightarrow> bytes) \<Rightarrow> nat \<Rightarrow> (arg list \<times> outcome) list" where
  "seg_execs holdTime fadeTime outs k =
     map (\<lambda>j. (segment_cmd holdTime fadeTime j, Returns (outs j))) [0..<k]"

definition write_list :: "nat \<Rightarrow> outcome \<Rightarrow> event" where
  "write_list n r = Ext (WriteFile ''list.txt'' (join newline (manifest_lines n))) r"

definition aborted :: "string \<Rightarrow> event list" where
  "aborted msg = [Alert (or_default msg ''Failed to export video''), SetBusy False]"

definition stage_files :: "environment \<Rightarrow> image list \<Rightarrow> StoryPage list \<Rightarrow> bytes io" where
  "stage_files env images pagesWithAudio =
     bind_io (load_ffmpeg env)
       (\<lambda>_. bind_io (write_images env images)
          (\<lambda>_. bind_io (write_audios env pagesWithAudio)
             (\<lambda>_. load_whoosh env)))"

definition finish_shape :: "StoryData \<Rightarrow> string list \<Rightarrow> string + unit \<Rightarrow> event list \<Rightarrow> bool" where
  "finish_shape story listFile r fin \<longleftrightarrow>
     (\<exists>msg. r = Inl msg \<and>
        fin = [Ext (WriteFile ''list.txt'' (join newline listFile)) (Throws msg)]) \<or>
     (\<exists>b msg. r = Inl msg \<and>
        fin = [Ext (WriteFile ''list.txt'' (join newline listFile)) (Returns b),
               Ext (Exec concat_args) (Throws msg)]) \<or>
     (\<exists>b c msg. r = Inl msg \<and>
        fin = [Ext (WriteFile ''list.txt'' (join newline listFile)) (Returns b),
               Ext (Exec concat_args) (Returns c),
               Ext (ReadFile ''output.mp4'') (Throws msg)]) \<or>
     (\<exists>b c d. r = Inr () \<and>
        fin = [Ext (WriteFile ''list.txt'' (join newline listFile)) (Returns b),
               Ext (Exec concat_args) (Returns c),
               Ext (ReadFile ''output.mp4'') (Returns d),
               Download (or_default (title story) ''storybook'' @ ''.mp4'') d])"

definition tail_shape ::
  "StoryData \<Rightarrow> nat \<Rightarrow> real \<Rightarrow> real \<Rightarrow> nat \<Rightarrow> string + unit \<Rightarrow> event list \<Rightarrow> bool" where
  "tail_shape story pageEls holdTime fadeTime k r fin \<longleftrightarrow>
     (\<exists>msg. r = Inl msg \<and> k < length (pages story) \<and> k < pageEls \<and>
        fin = [Ext (Exec (segment_cmd holdTime fadeTime k)) (Throws msg)]) \<or>
     (r = Inl type_error \<and> k < length (pages story) \<and> pageEls \<le> k \<and> fin = []) \<or>
     (k = length (pages story) \<and> finish_shape story (manifest_lines (length (pages story))) r fin)"

text \<open>
  \<open>emits P Q m\<close>: the action \<open>m\<close> only appends events, all of which satisfy \<open>P\<close>, and
  all of which satisfy \<open>Q\<close> when \<open>m\<close> does not throw. \<open>succeeds m\<close>: the action never
  throws.
\<close>

definition emits :: "(event \<Rightarrow> bool) \<Rightarrow> (event \<Rightarrow> bool) \<Rightarrow> 'a io \<Rightarrow> bool" where
  "emits P Q m \<longleftrightarrow>
     (\<forall>tr. \<exists>evs. snd (m tr) = tr @ evs \<and> list_all P evs \<and>
        (\<forall>x. fst (m tr) = Inr x \<longrightarrow> list_all Q evs))"

definition succeeds :: "'a io \<Rightarrow> bool" where
  "succeeds m \<longleftrightarrow> (\<forall>tr. \<exists>x tr'. m tr = (Inr x, tr'))"

subsection \<open>Environments and stories for concrete runs\<close>

text \<open>
  \<open>calm_env\<close> answers every call; \<open>silent_env\<close> answers every call with empty bytes,
  so that every image and every narration clip is empty; in \<open>offline_env\<close> the narration
  endpoint answers with an error response.
\<close>

definition calm_env :: environment where
  "calm_env tr c =
     (case c of
        GenerateAudio t \<Rightarrow> Returns ''mp3''
      | Html2canvas i \<Rightarrow> Returns ''png''
      | ReadFile n \<Rightarrow> Returns ''video''
      | _ \<Rightarrow> Returns [])"



definition one_page :: StoryData where
  "one_page =
     \<lparr>title = ''Tale'',
      pages = [\<lparr>page_text = ''Once'', imagePrompt = ''a door'', imageUrl = None,
                audioUrl = None\<rparr>],
      prompt = ''a tale''\<rparr>"

definition two_pages :: StoryData where
  "two_pages =
     \<lparr>title = [],
      pages = [\<lparr>page_text = ''Once'', imagePrompt = ''a door'', imageUrl = None, audioUrl = None\<rparr>,
               \<lparr>page_text = ''The end'', imagePrompt = ''a key'', imageUrl = None,
                audioUrl = None\<rparr>],
      prompt = ''a tale''\<rparr>"

section \<open>Auxiliary lemmas\<close>

subsection \<open>Events appended by the steps\<close>

lemma emitsD:
  assumes "emits P Q m" and "m tr = (r, tr')"
  shows "\<exists>evs. tr' = tr @ evs \<and> list_all P evs \<and> (\<forall>x. r = Inr x \<longrightarrow> list_all Q evs)"
  using assms unfolding emits_def by (metis fst_conv snd_conv)

lemma emits_ext_call:
  assumes "\<And>r. P (Ext c r)" and "\<And>b. Q (Ext c (Returns b))"
  shows "emits P Q (ext_call env c)"
  using assms by (auto simp: emits_def ext_call_def split: outcome.splits)

lemma emits_return: "emits P Q (return_io x)"
  by (simp add: emits_def return_io_def)

lemma emits_throw: "emits P Q (throw_io msg)"
  by (simp add: emits_def throw_io_def)

lemma emits_bind:
  assumes m: "emits P Q m" and f: "\<And>x. emits P Q (f x)"
  shows "emits P Q (bind_io m f)"
  unfolding emits_def
proof
  fix tr
  obtain r tr1 where mt: "m tr = (r, tr1)" by (cases "m tr")
  from emitsD [OF m mt] obtain evs1 where e1: "tr1 = tr @ evs1" "list_all P evs1"
      and q1: "\<And>x. r = Inr x \<Longrightarrow> list_all Q evs1"
    by blast
  show "\<exists>evs. snd (bind_io m f tr) = tr @ evs \<and> list_all P evs \<and>
          (\<forall>x. fst (bind_io m f tr) = Inr x \<longrightarrow> list_all Q evs)"
  proof (cases r)
    case (Inl e)
    with mt e1 show ?thesis by (auto simp: bind_io_def)
  next
    case (Inr x)
    obtain r2 tr2 where ft: "f x tr1 = (r2, tr2)" by (cases "f x tr1")
    from emitsD [OF f ft] obtain evs2 where e2: "tr2 = tr1 @ evs2" "list_all P evs2"
        and q2: "\<And>y. r2 = Inr y \<Longrightarrow> list_all Q evs2"
      by blast
    have "bind_io m f tr = (r2, tr @ evs1 @ evs2)"
      using mt Inr ft e1 e2 by (simp add: bind_io_def)
    with e1 e2 q1 q2 Inr show ?thesis by auto
  qed
qed

lemma emits_promise_all:
  assumes "\<And>m. m \<in> set ms \<Longrightarrow> emits P Q m"
  shows "emits P Q (promise_all ms)"
  using assms
proof (induction ms)
  case Nil
  show ?case by (simp add: emits_def)
next
  case (Cons m ms)
  have m: "emits P Q m" and ms: "emits P Q (promise_all ms)"
    using Cons by auto
  show ?case
    unfolding emits_def
  proof
    fix tr
    obtain r tr1 where mt: "m tr = (r, tr1)" by (cases "m tr")
    obtain rs tr2 where pt: "promise_all ms tr1 = (rs, tr2)" by (cases "promise_all ms tr1")
    from emitsD [OF m mt] obtain evs1 where e1: "tr1 = tr @ evs1" "list_all P evs1"
        and q1: "\<And>x. r = Inr x \<Longrightarrow> list_all Q evs1"
      by blast
    from emitsD [OF ms pt] obtain evs2 where e2: "tr2 = tr1 @ evs2" "list_all P evs2"
        and q2: "\<And>x. rs = Inr x \<Longrightarrow> list_all Q evs2"
      by blast
    show "\<exists>evs. snd (promise_all (m # ms) tr) = tr @ evs \<and> list_all P evs \<and>
            (\<forall>x. fst (promise_all (m # ms) tr) = Inr x \<longrightarrow> list_all Q evs)"
      using mt pt e1 e2 q1 q2 by (auto split: sum.splits)
  qed
qed

lemma emits_capture_pages:
  assumes "\<And>j r. P (Ext (Html2canvas j) r)" and "\<And>j b. Q (Ext (Html2canvas j) (Returns b))"
  shows "emits P Q (capture_pages env n i images)"
proof -
  have "\<exists>evs. snd (capture_pages env n i images tr) = tr @ evs \<and> list_all P evs \<and>
          (\<forall>x. fst (capture_pages env n i images tr) = Inr x \<longrightarrow> list_all Q evs)" for tr
  proof (induction env n i images tr rule: capture_pages.induct)
    case (1 env n i images tr)
    show ?case
    proof (cases "i < n")
      case False
      then show ?thesis by (simp add: capture_pages.simps)
    next
      case True
      show ?thesis
      proof (cases "env tr (Html2canvas i)")
        case (Throws msg)
        with True assms show ?thesis
          by (simp add: capture_pages.simps [of env n i images tr] ext_call_def)
      next
        case (Returns b)
        let ?tr1 = "tr @ [Ext (Html2canvas i) (Returns b)]"
        let ?im = "images @ [\<lparr>blob = b, name = ''page'' @ show_nat i @ ''.png''\<rparr>]"
        have step: "capture_pages env n i images tr = capture_pages env n (Suc i) ?im ?tr1"
          using True Returns by (simp add: capture_pages.simps [of env n i images tr] ext_call_def)
        have "ext_call env (Html2canvas i) tr = (Inr b, ?tr1)"
          using Returns by (simp add: ext_call_def)
        from "1.IH" [OF True this [symmetric] refl]
        obtain evs where "snd (capture_pages env n (Suc i) ?im ?tr1) = ?tr1 @ evs"
          "list_all P evs"
          "\<forall>x. fst (capture_pages env n (Suc i) ?im ?tr1) = Inr x \<longrightarrow> list_all Q evs"
          by blast
        with step assms show ?thesis by auto
      qed
    qed
  qed
  then show ?thesis by (simp add: emits_def)
qed

lemma promise_all_length:
  "promise_all ms tr = (Inr xs, tr') \<Longrightarrow> length xs = length ms"
proof (induction ms arbitrary: tr xs tr')
  case Nil
  then show ?case by simp
next
  case (Cons m ms)
  then show ?case
    by (auto split: prod.splits sum.splits)
qed

lemma promise_all_results:
  assumes "promise_all ms tr = (Inr xs, tr')" and "x \<in> set xs"
  shows "\<exists>m \<in> set ms. \<exists>t t'. m t = (Inr x, t')"
  using assms
proof (induction ms arbitrary: tr xs tr')
  case Nil
  then show ?case by simp
next
  case (Cons m ms)
  obtain r tr1 where mt: "m tr = (r, tr1)" by (cases "m tr")
  obtain rs tr2 where pt: "promise_all ms tr1 = (rs, tr2)" by (cases "promise_all ms tr1")
  from Cons.prems(1) mt pt obtain y ys where r: "r = Inr y" and rs: "rs = Inr ys"
      and xs: "xs = y # ys"
    by (auto split: sum.splits)
  from Cons.prems(2) xs consider "x = y" | "x \<in> set ys" by auto
  then show ?case
  proof cases
    case 1
    with mt r show ?thesis by auto
  next
    case 2
    from Cons.IH [OF pt [unfolded rs] 2] show ?thesis by auto
  qed
qed

lemma emits_generate_narration:
  "emits asset_event returned (generate_narration env ps)"
  unfolding generate_narration_def
  by (rule emits_promise_all)
    (auto simp: narrate_def asset_event_def narration_event_def returned_def
      intro!: emits_bind emits_ext_call emits_return)

lemma generate_narration_result:
  assumes "generate_narration env ps tr = (Inr ps', tr')"
  shows "length ps' = length ps" and "\<forall>p \<in> set ps'. audioUrl p \<noteq> None"
proof -
  show "length ps' = length ps"
    using promise_all_length [OF assms [unfolded generate_narration_def]] by simp
  show "\<forall>p \<in> set ps'. audioUrl p \<noteq> None"
  proof
    fix p assume "p \<in> set ps'"
    from promise_all_results [OF assms [unfolded generate_narration_def] this]
    obtain q t t' where "narrate env q t = (Inr p, t')" by auto
    then show "audioUrl p \<noteq> None"
      by (auto simp: narrate_def bind_io_def return_io_def ext_call_def
          split: outcome.splits)
  qed
qed

lemma capture_pages_result:
  assumes "capture_pages env n i images tr = (Inr images', tr')"
    and "length images = i"
    and "\<forall>j < i. name (images ! j) = page_name j"
  shows "length images' = max i n \<and> (\<forall>j < length images'. name (images' ! j) = page_name j)"
  using assms
proof (induction env n i images tr rule: capture_pages.induct)
  case (1 env n i images tr)
  show ?case
  proof (cases "i < n")
    case False
    with "1.prems" show ?thesis by (simp add: capture_pages.simps [of env n i images tr])
  next
    case True
    from True "1.prems"(1) obtain b where r: "env tr (Html2canvas i) = Returns b"
      by (cases "env tr (Html2canvas i)")
        (auto simp: capture_pages.simps [of env n i images tr] ext_call_def)
    let ?tr1 = "tr @ [Ext (Html2canvas i) (Returns b)]"
    let ?im = "images @ [\<lparr>blob = b, name = ''page'' @ show_nat i @ ''.png''\<rparr>]"
    have call: "ext_call env (Html2canvas i) tr = (Inr b, ?tr1)"
      using r by (simp add: ext_call_def)
    have step: "capture_pages env n (Suc i) ?im ?tr1 = (Inr images', tr')"
      using True call "1.prems"(1) by (simp add: capture_pages.simps [of env n i images tr])
    have len: "length ?im = Suc i" using "1.prems"(2) by simp
    have names: "\<forall>j < Suc i. name (?im ! j) = page_name j"
      using "1.prems"(2,3) by (auto simp: nth_append page_name_def less_Suc_eq)
    from "1.IH" [OF True call [symmetric] refl step len names] True
    show ?thesis by (simp add: max_def)
  qed
qed

subsection \<open>The encode loop and the closing steps\<close>

lemma seg_events_step:
  assumes "i < k"
  shows "Ext (Exec (segment_cmd h f i)) (Returns b) # seg_events h f outs (Suc i) k =
         seg_events h f (outs(i := b)) i k"
  using assms by (simp add: seg_events_def upt_conv_Cons)

lemma build_segments_shape:
  assumes "build_segments env h f images n i lf tr = (r, tr')"
    and "i \<le> n"
    and "\<forall>j < length images. name (images ! j) = page_name j"
  shows "\<exists>k outs fin. i \<le> k \<and> k \<le> n \<and> tr' = tr @ seg_events h f outs i k @ fin \<and>
           ((r = Inr (lf @ map (\<lambda>j. ''file '' @ seg_name j) [i..<n]) \<and> k = n \<and> fin = []) \<or>
            (\<exists>msg. r = Inl msg \<and> k < n \<and> k < length images \<and>
               fin = [Ext (Exec (segment_cmd h f k)) (Throws msg)]) \<or>
            (r = Inl type_error \<and> k < n \<and> length images \<le> k \<and> fin = []))"
  using assms
proof (induction env h f images n i lf tr rule: build_segments.induct)
  case (1 env h f images n i lf tr)
  note simps = build_segments.simps [of env h f images n i lf tr]
  show ?case
  proof (cases "i < n")
    case False
    with "1.prems" have "r = Inr lf" "tr' = tr" "i = n" by (auto simp: simps)
    then show ?thesis
      by (intro exI [of _ i] exI [of _ "\<lambda>_. []"] exI [of _ "[]"]) (simp add: seg_events_def)
  next
    case True
    show ?thesis
    proof (cases "i < length images")
      case False
      with True "1.prems" have "r = Inl type_error" "tr' = tr" by (auto simp: simps)
      with True False show ?thesis
        by (intro exI [of _ i] exI [of _ "\<lambda>_. []"] exI [of _ "[]"]) (simp add: seg_events_def)
    next
      case inb: True
      let ?cmd = "segment_args (name (images ! i)) i h f (''seg'' @ show_nat i @ ''.mp4'')"
      have cmd: "?cmd = segment_cmd h f i"
        using inb "1.prems"(3) by (simp add: segment_cmd_def seg_name_def)
      show ?thesis
      proof (cases "env tr (Exec ?cmd)")
        case (Throws msg)
        with True inb "1.prems"(1) have "r = Inl msg" "tr' = tr @ [Ext (Exec ?cmd) (Throws msg)]"
          by (auto simp: simps ext_call_def Let_def)
        with True inb cmd show ?thesis
          by (intro exI [of _ i] exI [of _ "\<lambda>_. []"]
              exI [of _ "[Ext (Exec (segment_cmd h f i)) (Throws msg)]"])
            (simp add: seg_events_def)
      next
        case (Returns b)
        let ?tr1 = "tr @ [Ext (Exec ?cmd) (Returns b)]"
        let ?lf = "lf @ [''file '' @ (''seg'' @ show_nat i @ ''.mp4'')]"
        have call: "ext_call env (Exec ?cmd) tr = (Inr b, ?tr1)"
          using Returns by (simp add: ext_call_def)
        have step: "build_segments env h f images n (Suc i) ?lf ?tr1 = (r, tr')"
          using True inb call "1.prems"(1) by (simp add: simps Let_def)
        from True have le: "Suc i \<le> n" by simp
        from "1.IH" [OF True inb refl refl call [symmetric] refl step le "1.prems"(3)]
        obtain k outs fin where k: "Suc i \<le> k" "k \<le> n"
          and tr': "tr' = ?tr1 @ seg_events h f outs (Suc i) k @ fin"
          and alt: "(r = Inr (?lf @ map (\<lambda>j. ''file '' @ seg_name j) [Suc i..<n]) \<and> k = n \<and> fin = []) \<or>
            (\<exists>msg. r = Inl msg \<and> k < n \<and> k < length images \<and>
               fin = [Ext (Exec (segment_cmd h f k)) (Throws msg)]) \<or>
            (r = Inl type_error \<and> k < n \<and> length images \<le> k \<and> fin = [])"
          by blast
        have lf: "?lf @ map (\<lambda>j. ''file '' @ seg_name j) [Suc i..<n] =
                  lf @ map (\<lambda>j. ''file '' @ seg_name j) [i..<n]"
          using True by (simp add: upt_conv_Cons seg_name_def)
        have "tr' = tr @ (Ext (Exec (segment_cmd h f i)) (Returns b) #
                 seg_events h f outs (Suc i) k) @ fin"
          using tr' unfolding cmd by simp
        then have tr2: "tr' = tr @ seg_events h f (outs(i := b)) i k @ fin"
          using k seg_events_step [of i k h f b outs] by simp
        from alt have alt':
          "(r = Inr (lf @ map (\<lambda>j. ''file '' @ seg_name j) [i..<n]) \<and> k = n \<and> fin = []) \<or>
            (\<exists>msg. r = Inl msg \<and> k < n \<and> k < length images \<and>
               fin = [Ext (Exec (segment_cmd h f k)) (Throws msg)]) \<or>
            (r = Inl type_error \<and> k < n \<and> length images \<le> k \<and> fin = [])"
          unfolding lf .
        from k have ik: "i \<le> k" by simp
        from ik k(2) tr2 alt' show ?thesis by blast
      qed
    qed
  qed
qed

lemma concat_and_download_shape:
  assumes "concat_and_download env story listFile tr = (r, tr')"
  shows "\<exists>fin. tr' = tr @ fin \<and> finish_shape story listFile r fin"
  using assms
  by (auto simp: concat_and_download_def bind_io_def ext_call_def offer_download_def
      finish_shape_def split: outcome.splits)

lemma export_video_regroup:
  "export_video env story pageEls h f =
     bind_io (generate_narration env (pages story))
       (\<lambda>pagesWithAudio. bind_io (capture_pages env pageEls 0 [])
          (\<lambda>images. bind_io (stage_files env images pagesWithAudio)
             (\<lambda>_. bind_io
                (build_segments env h f images (length pagesWithAudio) 0
                   [''ffconcat version 1.0''])
                (concat_and_download env story))))"
  by (simp add: export_video_def stage_files_def bind_io_def fun_eq_iff
      split: prod.splits sum.splits)

lemma emits_stage_files:
  assumes "\<forall>j < length images. name (images ! j) = page_name j"
  shows "emits setup_event returned (stage_files env images pagesWithAudio)"
proof -
  have img: "emits setup_event returned (ext_call env (WriteFile (name im) (blob im)))"
    if "im \<in> set images" for im
  proof -
    from that assms obtain j where "name im = page_name j"
      by (auto simp: in_set_conv_nth)
    then show ?thesis
      by (intro emits_ext_call) (simp_all add: setup_event_def page_name_def returned_def)
  qed
  have aud: "emits setup_event returned (write_audio env i p)" for i p
    by (cases "audioUrl p")
      (auto simp: write_audio_def setup_event_def returned_def intro!: emits_throw emits_ext_call)
  show ?thesis
    unfolding stage_files_def load_ffmpeg_def write_images_def write_audios_def load_whoosh_def
    by (intro emits_bind emits_promise_all emits_ext_call)
      (auto simp: setup_event_def returned_def img aud)
qed

lemma export_video_shape:
  assumes run: "export_video env story pageEls h f tr0 = (r, tr)"
  shows
    "(\<exists>msg as su. r = Inl msg \<and> tr = tr0 @ as @ su \<and> list_all asset_event as \<and>
        list_all setup_event su \<and> (su = [] \<or> list_all returned as)) \<or>
     (\<exists>as su k outs fin. tr = tr0 @ as @ su @ seg_events h f outs 0 k @ fin \<and>
        list_all asset_event as \<and> list_all returned as \<and> list_all setup_event su \<and>
        k \<le> length (pages story) \<and> tail_shape story pageEls h f k r fin \<and>
        list_all returned su)"
proof -
  let ?N = "length (pages story)"
  obtain r1 tr1 where g: "generate_narration env (pages story) tr0 = (r1, tr1)"
    by (cases "generate_narration env (pages story) tr0")
  from emitsD [OF emits_generate_narration g]
  obtain as1 where as1: "tr1 = tr0 @ as1" "list_all asset_event as1"
    and ret1: "\<And>x. r1 = Inr x \<Longrightarrow> list_all returned as1"
    by blast
  show ?thesis
  proof (cases r1)
    case (Inl msg)
    with run g have "r = Inl msg" "tr = tr1"
      by (simp_all add: export_video_regroup bind_io_def)
    with as1 have "r = Inl msg \<and> tr = tr0 @ as1 @ [] \<and> list_all asset_event as1 \<and>
        list_all setup_event [] \<and> ([] = [] \<or> list_all returned as1)"
      by simp
    then show ?thesis by blast
  next
    case (Inr pwa)
    from generate_narration_result(1) [OF g [unfolded Inr]] have len: "length pwa = ?N" .
    obtain r2 tr2 where c: "capture_pages env pageEls 0 [] tr1 = (r2, tr2)"
      by (cases "capture_pages env pageEls 0 [] tr1")
    have "emits asset_event returned (capture_pages env pageEls 0 [])"
      by (rule emits_capture_pages)
        (auto simp: asset_event_def capture_event_def returned_def)
    from emitsD [OF this c]
    obtain as2 where as2: "tr2 = tr1 @ as2" "list_all asset_event as2"
      and ret2: "\<And>x. r2 = Inr x \<Longrightarrow> list_all returned as2"
      by blast
    show ?thesis
    proof (cases r2)
      case (Inl msg)
      with run g c Inr have "r = Inl msg" "tr = tr2"
        by (simp_all add: export_video_regroup bind_io_def)
      with as1 as2 have "r = Inl msg \<and> tr = tr0 @ (as1 @ as2) @ [] \<and>
          list_all asset_event (as1 @ as2) \<and>
          list_all setup_event [] \<and> ([] = [] \<or> list_all returned (as1 @ as2))"
        by simp
      then show ?thesis by blast
    next
      case r2: (Inr images)
      from capture_pages_result [OF c [unfolded r2]]
      have ilen: "length images = pageEls"
        and names: "\<forall>j < length images. name (images ! j) = page_name j"
        by simp_all
      have assets: "list_all asset_event (as1 @ as2)" "list_all returned (as1 @ as2)"
        using as1 as2 ret1 [OF Inr] ret2 [OF r2] by simp_all
      obtain r3 tr3 where st: "stage_files env images pwa tr2 = (r3, tr3)"
        by (cases "stage_files env images pwa tr2")
      from emitsD [OF emits_stage_files [OF names] st]
      obtain su where su: "tr3 = tr2 @ su" "list_all setup_event su"
        and ret3: "\<And>x. r3 = Inr x \<Longrightarrow> list_all returned su"
        by blast
      show ?thesis
      proof (cases r3)
        case (Inl msg)
        with run g c Inr r2 st have "r = Inl msg" "tr = tr3"
          by (simp_all add: export_video_regroup bind_io_def)
        with as1 as2 su assets have "r = Inl msg \<and> tr = tr0 @ (as1 @ as2) @ su \<and>
            list_all asset_event (as1 @ as2) \<and>
            list_all setup_event su \<and> (su = [] \<or> list_all returned (as1 @ as2))"
          by simp
        then show ?thesis by blast
      next
        case r3: (Inr x3)
        obtain r4 tr4 where b: "build_segments env h f images ?N 0
            [''ffconcat version 1.0''] tr3 = (r4, tr4)"
          by (cases "build_segments env h f images ?N 0 [''ffconcat version 1.0''] tr3")
        from build_segments_shape [OF b _ names]
        obtain k outs fin where k: "k \<le> ?N"
          and tr4: "tr4 = tr3 @ seg_events h f outs 0 k @ fin"
          and alt: "(r4 = Inr ([''ffconcat version 1.0''] @
                        map (\<lambda>j. ''file '' @ seg_name j) [0..<?N]) \<and> k = ?N \<and> fin = []) \<or>
            (\<exists>msg. r4 = Inl msg \<and> k < ?N \<and> k < length images \<and>
               fin = [Ext (Exec (segment_cmd h f k)) (Throws msg)]) \<or>
            (r4 = Inl type_error \<and> k < ?N \<and> length images \<le> k \<and> fin = [])"
          by auto
        have pre: "tr3 = tr0 @ (as1 @ as2) @ su"
          using as1 as2 su by simp
        have rest: "export_video env story pageEls h f tr0 =
            bind_io (build_segments env h f images ?N 0 [''ffconcat version 1.0''])
              (concat_and_download env story) tr3"
          using g c Inr r2 st r3 len by (simp add: export_video_regroup bind_io_def)
        from alt consider
          (ok) "r4 = Inr (manifest_lines ?N)" "k = ?N" "fin = []"
          | (thrown) msg where "r4 = Inl msg" "k < ?N" "k < pageEls"
            "fin = [Ext (Exec (segment_cmd h f k)) (Throws msg)]"
          | (undefined_image) "r4 = Inl type_error" "k < ?N" "pageEls \<le> k" "fin = []"
          using ilen by (auto simp: manifest_lines_def)
        then have "\<exists>fin'. tr = tr3 @ seg_events h f outs 0 k @ fin' \<and>
            tail_shape story pageEls h f k r fin'"
        proof cases
          case ok
          obtain r5 tr5 where cd: "concat_and_download env story (manifest_lines ?N) tr4 = (r5, tr5)"
            by (cases "concat_and_download env story (manifest_lines ?N) tr4")
          from concat_and_download_shape [OF cd]
          obtain fin5 where fin5: "tr5 = tr4 @ fin5"
            "finish_shape story (manifest_lines ?N) r5 fin5"
            by blast
          from run rest b ok cd have "r = r5" "tr = tr5" by (simp_all add: bind_io_def)
          with fin5 tr4 ok show ?thesis by (auto simp: tail_shape_def)
        next
          case thrown
          from run rest b thrown have "r = Inl msg" "tr = tr4" by (simp_all add: bind_io_def)
          with tr4 thrown show ?thesis by (auto simp: tail_shape_def)
        next
          case undefined_image
          from run rest b undefined_image have "r = Inl type_error" "tr = tr4"
            by (simp_all add: bind_io_def)
          with tr4 undefined_image show ?thesis by (auto simp: tail_shape_def)
        qed
        then obtain fin' where "tr = tr0 @ (as1 @ as2) @ su @ seg_events h f outs 0 k @ fin'"
          "tail_shape story pageEls h f k r fin'"
          using pre by auto
        with assets su k ret3 [OF r3] show ?thesis by blast
      qed
    qed
  qed
qed

subsection \<open>Decimal rendering, joining and splitting\<close>

lemma digit_inj: "a < 10 \<Longrightarrow> b < 10 \<Longrightarrow> digit a = digit b \<Longrightarrow> a = b"
proof -
  assume a: "a < 10" and b: "b < 10" and eq: "digit a = digit b"
  have "distinct ''0123456789''" by simp
  moreover have "a < length ''0123456789''" "b < length ''0123456789''" using a b by simp_all
  ultimately show "a = b" using eq unfolding digit_def by (metis nth_eq_iff_index_eq)
qed

lemma digit_in: "d < 10 \<Longrightarrow> digit d \<in> set ''0123456789''"
  unfolding digit_def by (rule nth_mem) simp

lemma show_nat_digits: "set (show_nat n) \<subseteq> set ''0123456789''"
proof (induction n rule: show_nat.induct)
  case (1 n)
  show ?case
  proof (cases "n < 10")
    case True
    then show ?thesis using digit_in [of n] by (simp add: show_nat.simps [of n])
  next
    case False
    have "n mod 10 < 10" by simp
    from digit_in [OF this] "1.IH" [OF False] False show ?thesis
      by (simp add: show_nat.simps [of n])
  qed
qed

lemma show_nat_nonempty: "show_nat n \<noteq> []"
  by (simp add: show_nat.simps [of n])

lemma show_nat_length_ge2: "10 \<le> n \<Longrightarrow> 2 \<le> length (show_nat n)"
  using show_nat_nonempty [of "n div 10"]
  by (cases "show_nat (n div 10)") (simp_all add: show_nat.simps [of n])

lemma show_nat_inj: "show_nat a = show_nat b \<Longrightarrow> a = b"
proof (induction a arbitrary: b rule: show_nat.induct)
  case (1 a)
  show ?case
  proof (cases "a < 10")
    case True
    show ?thesis
    proof (cases "b < 10")
      case b: True
      with True "1.prems" show ?thesis
        by (auto simp: show_nat.simps [of a] show_nat.simps [of b] intro: digit_inj)
    next
      case False
      with show_nat_length_ge2 [of b] have "2 \<le> length (show_nat b)" by simp
      moreover from True have "length (show_nat a) = 1" by (simp add: show_nat.simps [of a])
      ultimately show ?thesis using "1.prems" by simp
    qed
  next
    case False
    show ?thesis
    proof (cases "b < 10")
      case True
      then have "length (show_nat b) = 1" by (simp add: show_nat.simps [of b])
      moreover from False show_nat_length_ge2 [of a] have "2 \<le> length (show_nat a)" by simp
      ultimately show ?thesis using "1.prems" by simp
    next
      case b: False
      from False b "1.prems" have eq: "show_nat (a div 10) = show_nat (b div 10)"
        and d: "digit (a mod 10) = digit (b mod 10)"
        by (simp_all add: show_nat.simps [of a] show_nat.simps [of b])
      from "1.IH" [OF False eq] have "a div 10 = b div 10" .
      moreover from d have "a mod 10 = b mod 10" by (intro digit_inj) simp_all
      ultimately show ?thesis by (metis div_mult_mod_eq)
    qed
  qed
qed

lemma newline_notin_show_nat: "CHR 0x0A \<notin> set (show_nat n)"
  using show_nat_digits [of n] by auto

lemma seg_name_inj: "seg_name i = seg_name j \<Longrightarrow> i = j"
  by (simp add: seg_name_def show_nat_inj)

lemma seg_name_eq_iff: "seg_name i = seg_name j \<longleftrightarrow> i = j"
  using seg_name_inj by auto

lemma distinct_seg_names: "distinct (map seg_name [0..<n])"
  by (simp add: distinct_map inj_on_def seg_name_inj)

lemma newline_notin_seg_name: "CHR 0x0A \<notin> set (seg_name i)"
  using newline_notin_show_nat [of i] by (simp add: seg_name_def)

lemma split_on_nonempty: "split_on c s \<noteq> []"
  by (induction s) (auto split: list.splits)

lemma split_on_plain: "c \<notin> set l \<Longrightarrow> split_on c l = [l]"
  by (induction l) auto

lemma split_on_append: "c \<notin> set l \<Longrightarrow> split_on c (l @ c # s) = l # split_on c s"
  by (induction l) auto

lemma split_on_join:
  assumes "ls \<noteq> []" and "\<forall>l \<in> set ls. c \<notin> set l"
  shows "split_on c (join [c] ls) = ls"
  using assms
proof (induction "[c]" ls rule: join.induct)
  case 1
  then show ?case by simp
next
  case (2 x)
  then show ?case by (simp add: split_on_plain)
next
  case (3 x y ys)
  then show ?case by (simp add: split_on_append)
qed

lemma manifest_split:
  "split_on CHR 0x0A (join newline (manifest_lines n)) = manifest_lines n"
  unfolding newline_def
  by (rule split_on_join) (auto simp: manifest_lines_def newline_notin_seg_name)

lemma show_nat_0: "show_nat 0 = ''0''"
  by (simp add: show_nat.simps [of 0] digit_def)

lemma show_nat_1: "show_nat (Suc 0) = ''1''"
  by (simp add: show_nat.simps [of "Suc 0"] digit_def)

lemma upt_0_2: "[0..<2] = [0, Suc 0]"
  by (simp add: upt_rec numeral_2_eq_2)

subsection \<open>Runs in which no call throws\<close>

lemma succeeds_ext_call: "never_throws env \<Longrightarrow> succeeds (ext_call env c)"
  unfolding succeeds_def never_throws_def ext_call_def
proof
  fix tr
  assume "\<forall>tr c. \<exists>b. env tr c = Returns b"
  then obtain b where "env tr c = Returns b" by blast
  then show "\<exists>x tr'. (case env tr c of
        Throws msg \<Rightarrow> (Inl msg, tr @ [Ext c (Throws msg)])
      | Returns b \<Rightarrow> (Inr b, tr @ [Ext c (Returns b)])) = (Inr x, tr')"
    by simp
qed

lemma succeeds_return: "succeeds (return_io x)"
  by (simp add: succeeds_def return_io_def)

lemma succeeds_bind:
  assumes "succeeds m" and "\<And>tr x tr'. m tr = (Inr x, tr') \<Longrightarrow> succeeds (f x)"
  shows "succeeds (bind_io m f)"
  unfolding succeeds_def
proof
  fix tr
  from assms(1) obtain x tr1 where m: "m tr = (Inr x, tr1)"
    unfolding succeeds_def by blast
  from assms(2) [OF m] obtain y tr2 where "f x tr1 = (Inr y, tr2)"
    unfolding succeeds_def by blast
  with m show "\<exists>y tr'. bind_io m f tr = (Inr y, tr')"
    by (simp add: bind_io_def)
qed

lemma succeeds_promise_all:
  assumes "\<And>m. m \<in> set ms \<Longrightarrow> succeeds m"
  shows "succeeds (promise_all ms)"
  using assms
proof (induction ms)
  case Nil
  show ?case by (simp add: succeeds_def)
next
  case (Cons m ms)
  have m: "succeeds m" and ms: "succeeds (promise_all ms)"
    using Cons by auto
  show ?case
    unfolding succeeds_def
  proof
    fix tr
    from m obtain x tr1 where 1: "m tr = (Inr x, tr1)"
      unfolding succeeds_def by blast
    from ms obtain xs tr2 where 2: "promise_all ms tr1 = (Inr xs, tr2)"
      unfolding succeeds_def by blast
    from 1 2 show "\<exists>y tr'. promise_all (m # ms) tr = (Inr y, tr')" by simp
  qed
qed

lemma succeeds_capture_pages:
  assumes "never_throws env"
  shows "succeeds (capture_pages env n i images)"
proof -
  have "never_throws env \<Longrightarrow> \<exists>x tr'. capture_pages env n i images tr = (Inr x, tr')" for tr
  proof (induction env n i images tr rule: capture_pages.induct)
    case (1 env n i images tr)
    show ?case
    proof (cases "i < n")
      case False
      then show ?thesis by (simp add: capture_pages.simps [of env n i images tr])
    next
      case True
      from "1.prems" obtain b where "env tr (Html2canvas i) = Returns b"
        unfolding never_throws_def by blast
      then have call: "ext_call env (Html2canvas i) tr =
          (Inr b, tr @ [Ext (Html2canvas i) (Returns b)])"
        by (simp add: ext_call_def)
      from "1.IH" [OF True call [symmetric] refl "1.prems"] True call
      show ?thesis by (simp add: capture_pages.simps [of env n i images tr])
    qed
  qed
  then show ?thesis
    using assms by (simp add: succeeds_def)
qed

lemma succeeds_build_segments:
  assumes "never_throws env" and "n \<le> length images"
  shows "succeeds (build_segments env h f images n i lf)"
proof -
  have "never_throws env \<Longrightarrow> n \<le> length images \<Longrightarrow>
        \<exists>x tr'. build_segments env h f images n i lf tr = (Inr x, tr')" for tr
  proof (induction env h f images n i lf tr rule: build_segments.induct)
    case (1 env h f images n i lf tr)
    note simps = build_segments.simps [of env h f images n i lf tr]
    show ?case
    proof (cases "i < n")
      case False
      then show ?thesis by (simp add: simps)
    next
      case True
      with "1.prems" have inb: "i < length images" by simp
      let ?cmd = "segment_args (name (images ! i)) i h f (''seg'' @ show_nat i @ ''.mp4'')"
      from "1.prems"(1) obtain b where "env tr (Exec ?cmd) = Returns b"
        unfolding never_throws_def by blast
      then have call: "ext_call env (Exec ?cmd) tr = (Inr b, tr @ [Ext (Exec ?cmd) (Returns b)])"
        by (simp add: ext_call_def)
      from "1.IH" [OF True inb refl refl call [symmetric] refl "1.prems"] True inb call
      show ?thesis by (simp add: simps Let_def)
    qed
  qed
  then show ?thesis
    using assms by (simp add: succeeds_def)
qed

lemma succeeds_stage_files:
  assumes "never_throws env" and "\<forall>p \<in> set pagesWithAudio. audioUrl p \<noteq> None"
  shows "succeeds (stage_files env images pagesWithAudio)"
proof -
  have aud: "succeeds (write_audio env i p)" if "p \<in> set pagesWithAudio" for i p
  proof -
    from that assms(2) obtain b where "audioUrl p = Some b" by auto
    then show ?thesis
      by (simp add: write_audio_def succeeds_ext_call [OF assms(1)])
  qed
  have "succeeds (write_audios env pagesWithAudio)"
    unfolding write_audios_def
    by (rule succeeds_promise_all) (auto intro: aud dest: set_zip_rightD)
  then show ?thesis
    unfolding stage_files_def load_ffmpeg_def write_images_def load_whoosh_def
    using assms(1)
    by (intro succeeds_bind succeeds_promise_all) (auto intro: succeeds_ext_call)
qed

lemma export_video_succeeds:
  assumes env: "never_throws env" and els: "length (pages story) \<le> pageEls"
  shows "\<exists>tr. export_video env story pageEls h f tr0 = (Inr (), tr)"
proof -
  have "succeeds (export_video env story pageEls h f)"
    unfolding export_video_regroup
  proof (intro succeeds_bind)
    show "succeeds (generate_narration env (pages story))"
      unfolding generate_narration_def narrate_def
      by (intro succeeds_promise_all)
        (auto intro!: succeeds_bind succeeds_ext_call succeeds_return env)
  next
    show "succeeds (capture_pages env pageEls 0 [])"
      by (rule succeeds_capture_pages [OF env])
  next
    fix tr :: "event list" and pwa tr'
    assume "generate_narration env (pages story) tr = (Inr pwa, tr')"
    from generate_narration_result [OF this]
    have len: "length pwa = length (pages story)" and urls: "\<forall>p \<in> set pwa. audioUrl p \<noteq> None"
      by simp_all
    fix tr1 :: "event list" and images tr1'
    assume "capture_pages env pageEls 0 [] tr1 = (Inr images, tr1')"
    from capture_pages_result [OF this] have ilen: "length images = pageEls" by simp
    show "succeeds (stage_files env images pwa)"
      by (rule succeeds_stage_files [OF env urls])
    show "succeeds (build_segments env h f images (length pwa) 0 [''ffconcat version 1.0''])"
      using els len ilen by (intro succeeds_build_segments [OF env]) simp
    fix lf
    show "succeeds (concat_and_download env story lf)"
      unfolding concat_and_download_def
      by (intro succeeds_bind succeeds_ext_call env)
        (simp add: succeeds_def offer_download_def)
  qed
  then show ?thesis
    unfolding succeeds_def by (metis old.unit.exhaust)
qed

subsection \<open>The seven shapes of a run\<close>

lemma downloadVideo_cases:
  fixes env story pageEls h f
  obtains
    (setup_failed) msg as su where
      "downloadVideo env (Some story) (Some pageEls) h f = SetBusy True # as @ su @ aborted msg"
      "list_all asset_event as" "list_all setup_event su" "su = [] \<or> list_all returned as"
      "fst (export_video env story pageEls h f [SetBusy True]) = Inl msg"
  | (encode_failed) msg as su k outs where
      "downloadVideo env (Some story) (Some pageEls) h f =
         SetBusy True # as @ su @ seg_events h f outs 0 k @
           Ext (Exec (segment_cmd h f k)) (Throws msg) # aborted msg"
      "list_all asset_event as" "list_all returned as" "list_all setup_event su"
      "k < length (pages story)" "k < pageEls"
      "fst (export_video env story pageEls h f [SetBusy True]) = Inl msg"
      "list_all returned su"
  | (image_missing) as su k outs where
      "downloadVideo env (Some story) (Some pageEls) h f =
         SetBusy True # as @ su @ seg_events h f outs 0 k @ aborted type_error"
      "list_all asset_event as" "list_all returned as" "list_all setup_event su"
      "k < length (pages story)" "pageEls \<le> k"
      "fst (export_video env story pageEls h f [SetBusy True]) = Inl type_error"
      "list_all returned su"
  | (list_failed) msg as su outs where
      "downloadVideo env (Some story) (Some pageEls) h f =
         SetBusy True # as @ su @ seg_events h f outs 0 (length (pages story)) @
           write_list (length (pages story)) (Throws msg) # aborted msg"
      "list_all asset_event as" "list_all returned as" "list_all setup_event su"
      "fst (export_video env story pageEls h f [SetBusy True]) = Inl msg"
      "list_all returned su"
  | (concat_failed) msg b as su outs where
      "downloadVideo env (Some story) (Some pageEls) h f =
         SetBusy True # as @ su @ seg_events h f outs 0 (length (pages story)) @
           write_list (length (pages story)) (Returns b) #
           Ext (Exec concat_args) (Throws msg) # aborted msg"
      "list_all asset_event as" "list_all returned as" "list_all setup_event su"
      "fst (export_video env story pageEls h f [SetBusy True]) = Inl msg"
      "list_all returned su"
  | (read_failed) msg b c as su outs where
      "downloadVideo env (Some story) (Some pageEls) h f =
         SetBusy True # as @ su @ seg_events h f outs 0 (length (pages story)) @
           write_list (length (pages story)) (Returns b) #
           Ext (Exec concat_args) (Returns c) #
           Ext (ReadFile ''output.mp4'') (Throws msg) # aborted msg"
      "list_all asset_event as" "list_all returned as" "list_all setup_event su"
      "fst (export_video env story pageEls h f [SetBusy True]) = Inl msg"
      "list_all returned su"
  | (finished) b c d as su outs where
      "downloadVideo env (Some story) (Some pageEls) h f =
         SetBusy True # as @ su @ seg_events h f outs 0 (length (pages story)) @
           [write_list (length (pages story)) (Returns b),
            Ext (Exec concat_args) (Returns c),
            Ext (ReadFile ''output.mp4'') (Returns d),
            Download (or_default (title story) ''storybook'' @ ''.mp4'') d,
            SetBusy False]"
      "list_all asset_event as" "list_all returned as" "list_all setup_event su"
      "fst (export_video env story pageEls h f [SetBusy True]) = Inr ()"
      "list_all returned su"
proof -
  obtain r tr where run: "export_video env story pageEls h f [SetBusy True] = (r, tr)"
    by (cases "export_video env story pageEls h f [SetBusy True]")
  have dv: "downloadVideo env (Some story) (Some pageEls) h f =
      (case r of Inl msg \<Rightarrow> tr @ aborted msg | Inr _ \<Rightarrow> tr @ [SetBusy False])"
    using run by (simp add: downloadVideo_def aborted_def split: sum.splits)
  from export_video_shape [OF run] consider
    (A) msg as su where "r = Inl msg" "tr = [SetBusy True] @ as @ su" "list_all asset_event as"
        "list_all setup_event su" "su = [] \<or> list_all returned as"
    | (B) as su k outs fin where "tr = [SetBusy True] @ as @ su @ seg_events h f outs 0 k @ fin"
        "list_all asset_event as" "list_all returned as" "list_all setup_event su"
        "k \<le> length (pages story)" "tail_shape story pageEls h f k r fin"
        "list_all returned su"
    by blast
  then show thesis
  proof cases
    case A
    from dv A have "downloadVideo env (Some story) (Some pageEls) h f =
        SetBusy True # as @ su @ aborted msg"
      by simp
    from setup_failed [OF this A(3,4,5)] run A(1) show thesis by simp
  next
    case B
    note side = B(2,3,4)
    from B(6) consider
      (t1) msg where "r = Inl msg" "k < length (pages story)" "k < pageEls"
        "fin = [Ext (Exec (segment_cmd h f k)) (Throws msg)]"
      | (t2) "r = Inl type_error" "k < length (pages story)" "pageEls \<le> k" "fin = []"
      | (t3) "k = length (pages story)"
        "finish_shape story (manifest_lines (length (pages story))) r fin"
      unfolding tail_shape_def by blast
    then show thesis
    proof cases
      case t1
      from dv B(1) t1 have "downloadVideo env (Some story) (Some pageEls) h f =
         SetBusy True # as @ su @ seg_events h f outs 0 k @
           Ext (Exec (segment_cmd h f k)) (Throws msg) # aborted msg"
        by simp
      from encode_failed [OF this side t1(2,3)] run t1(1) B(7) show thesis by simp
    next
      case t2
      from dv B(1) t2 have "downloadVideo env (Some story) (Some pageEls) h f =
         SetBusy True # as @ su @ seg_events h f outs 0 k @ aborted type_error"
        by simp
      from image_missing [OF this side t2(2,3)] run t2(1) B(7) show thesis by simp
    next
      case t3
      from t3(2) consider
        (f1) msg where "r = Inl msg" "fin = [write_list (length (pages story)) (Throws msg)]"
        | (f2) b msg where "r = Inl msg"
          "fin = [write_list (length (pages story)) (Returns b), Ext (Exec concat_args) (Throws msg)]"
        | (f3) b c msg where "r = Inl msg"
          "fin = [write_list (length (pages story)) (Returns b), Ext (Exec concat_args) (Returns c),
                  Ext (ReadFile ''output.mp4'') (Throws msg)]"
        | (f4) b c d where "r = Inr ()"
          "fin = [write_list (length (pages story)) (Returns b), Ext (Exec concat_args) (Returns c),
                  Ext (ReadFile ''output.mp4'') (Returns d),
                  Download (or_default (title story) ''storybook'' @ ''.mp4'') d]"
        unfolding finish_shape_def write_list_def by blast
      then show thesis
      proof cases
        case f1
        from dv B(1) t3(1) f1 have "downloadVideo env (Some story) (Some pageEls) h f =
           SetBusy True # as @ su @ seg_events h f outs 0 (length (pages story)) @
             write_list (length (pages story)) (Throws msg) # aborted msg"
          by simp
        from list_failed [OF this side] run f1(1) B(7) show thesis by simp
      next
        case f2
        from dv B(1) t3(1) f2 have "downloadVideo env (Some story) (Some pageEls) h f =
           SetBusy True # as @ su @ seg_events h f outs 0 (length (pages story)) @
             write_list (length (pages story)) (Returns b) #
             Ext (Exec concat_args) (Throws msg) # aborted msg"
          by simp
        from concat_failed [OF this side] run f2(1) B(7) show thesis by simp
      next
        case f3
        from dv B(1) t3(1) f3 have "downloadVideo env (Some story) (Some pageEls) h f =
           SetBusy True # as @ su @ seg_events h f outs 0 (length (pages story)) @
             write_list (length (pages story)) (Returns b) #
             Ext (Exec concat_args) (Returns c) #
             Ext (ReadFile ''output.mp4'') (Throws msg) # aborted msg"
          by simp
        from read_failed [OF this side] run f3(1) B(7) show thesis by simp
      next
        case f4
        from dv B(1) t3(1) f4 have eq: "downloadVideo env (Some story) (Some pageEls) h f =
           SetBusy True # as @ su @ seg_events h f outs 0 (length (pages story)) @
             [write_list (length (pages story)) (Returns b),
              Ext (Exec concat_args) (Returns c),
              Ext (ReadFile ''output.mp4'') (Returns d),
              Download (or_default (title story) ''storybook'' @ ''.mp4'') d,
              SetBusy False]"
          by simp
        from run f4(1) have ok: "fst (export_video env story pageEls h f [SetBusy True]) = Inr ()"
          by simp
        from finished [OF eq side ok B(7)] show thesis .
      qed
    qed
  qed
qed

lemma downloadVideo_success:
  assumes "never_throws env" and "length (pages story) \<le> pageEls"
  shows "\<exists>as su outs b c d.
     downloadVideo env (Some story) (Some pageEls) h f =
       SetBusy True # as @ su @ seg_events h f outs 0 (length (pages story)) @
         [write_list (length (pages story)) (Returns b),
          Ext (Exec concat_args) (Returns c),
          Ext (ReadFile ''output.mp4'') (Returns d),
          Download (or_default (title story) ''storybook'' @ ''.mp4'') d,
          SetBusy False] \<and>
     list_all asset_event as \<and> list_all setup_event su"
proof -
  from export_video_succeeds [OF assms, of h f "[SetBusy True]"]
  have ok: "fst (export_video env story pageEls h f [SetBusy True]) = Inr ()"
    by auto
  show ?thesis
  proof (cases rule: downloadVideo_cases [of env story pageEls h f])
    case (finished b c d as su outs)
    then show ?thesis by blast
  qed (simp_all add: ok)
qed

subsection \<open>The commands\<close>

lemma length_segment_cmd: "length (segment_cmd h f j) = 20"
  by (simp add: segment_cmd_def segment_args_def)

lemma segment_cmd_not_concat: "segment_cmd h f j \<noteq> concat_args"
proof
  assume "segment_cmd h f j = concat_args"
  then have "length (segment_cmd h f j) = length concat_args" by simp
  then show False by (simp add: length_segment_cmd concat_args_def)
qed


lemma last_segment_cmd: "last (segment_cmd h f j) = S (seg_name j)"
  by (simp add: segment_cmd_def segment_args_def)

lemma option_value_segment_cmd:
  "option_value ''-filter_complex'' (segment_cmd h f j) = Some (filter_complex h f)"
  "option_value ''-c:v'' (segment_cmd h f j) = Some (S ''libx264'')"
  "option_value ''-c:a'' (segment_cmd h f j) = Some (S ''aac'')"
  by (simp_all add: segment_cmd_def segment_args_def S_def page_name_def filter_complex_def)

lemma segment_cmd_inputs:
  "segment_cmd h f j ! 5 = S (''audio'' @ show_nat j @ ''.mp3'')"
  "segment_cmd h f j ! 7 = S ''whoosh.mp3''"
  "segment_cmd h f j ! 13 = S ''[aout]''"
  "segment_cmd h f j ! 18 = S ''-shortest''"
  "segment_cmd h f j ! 9 = filter_complex h f"
  "segment_cmd h f j ! 19 = S (seg_name j)"
  by (simp_all add: segment_cmd_def segment_args_def)

lemma segment_cmd_same_template:
  assumes "k \<notin> {3, 5, 19}"
  shows "segment_cmd h f i ! k = segment_cmd h f j ! k"
proof -
  have "(segment_cmd h f i)[3 := [], 5 := [], 19 := []] =
        (segment_cmd h f j)[3 := [], 5 := [], 19 := []]"
    by (simp add: segment_cmd_def segment_args_def)
  then have "(segment_cmd h f i)[3 := [], 5 := [], 19 := []] ! k =
             (segment_cmd h f j)[3 := [], 5 := [], 19 := []] ! k"
    by simp
  with assms show ?thesis by simp
qed


subsection \<open>The exec calls of a run\<close>

lemma exec_events_Nil: "exec_events [] = []"
  by (simp add: exec_events_def)

lemma exec_events_append: "exec_events (xs @ ys) = exec_events xs @ exec_events ys"
  by (simp add: exec_events_def)

lemma exec_events_Cons:
  "exec_events (e # es) =
     (case e of Ext (Exec args) r \<Rightarrow> [(args, r)] | _ \<Rightarrow> []) @ exec_events es"
  by (simp add: exec_events_def)

lemma exec_events_mem: "Ext (Exec a) r \<in> set tr \<longleftrightarrow> (a, r) \<in> set (exec_events tr)"
  by (induction tr) (auto simp: exec_events_Nil exec_events_Cons split: event.splits call.splits)

lemma exec_events_asset: "list_all asset_event as \<Longrightarrow> exec_events as = []"
  by (induction as)
    (auto simp: exec_events_Nil exec_events_Cons asset_event_def narration_event_def
      capture_event_def)

lemma exec_events_setup: "list_all setup_event su \<Longrightarrow> exec_events su = []"
  by (induction su) (auto simp: exec_events_Nil exec_events_Cons setup_event_def)

lemma exec_events_seg_events: "exec_events (seg_events h f outs 0 k) = seg_execs h f outs k"
  by (induction k) (simp_all add: seg_events_def seg_execs_def exec_events_Nil exec_events_append
      exec_events_Cons)

lemmas exec_events_simps =
  exec_events_Nil exec_events_append exec_events_Cons exec_events_asset exec_events_setup
  exec_events_seg_events aborted_def write_list_def

lemma run_execs:
  "\<exists>k outs rest. k \<le> length (pages story) \<and>
     exec_events (downloadVideo env (Some story) (Some pageEls) h f) = seg_execs h f outs k @ rest \<and>
     (rest = [] \<or>
      (\<exists>msg. k < length (pages story) \<and> rest = [(segment_cmd h f k, Throws msg)]) \<or>
      (\<exists>r. k = length (pages story) \<and> rest = [(concat_args, r)]))"
proof (cases rule: downloadVideo_cases [of env story pageEls h f])
  case (setup_failed msg as su)
  then have "exec_events (downloadVideo env (Some story) (Some pageEls) h f) = seg_execs h f (\<lambda>_. []) 0 @ []"
    by (simp add: exec_events_simps seg_execs_def)
  then show ?thesis by blast
next
  case (encode_failed msg as su k outs)
  then have "exec_events (downloadVideo env (Some story) (Some pageEls) h f) =
      seg_execs h f outs k @ [(segment_cmd h f k, Throws msg)]"
    by (simp add: exec_events_simps)
  moreover from encode_failed(5) have "k \<le> length (pages story)" by simp
  ultimately show ?thesis using encode_failed(5) by blast
next
  case (image_missing as su k outs)
  then have "exec_events (downloadVideo env (Some story) (Some pageEls) h f) = seg_execs h f outs k @ []"
    by (simp add: exec_events_simps)
  moreover from image_missing(5) have "k \<le> length (pages story)" by simp
  ultimately show ?thesis by blast
next
  case (list_failed msg as su outs)
  then have "exec_events (downloadVideo env (Some story) (Some pageEls) h f) =
      seg_execs h f outs (length (pages story)) @ []"
    by (simp add: exec_events_simps)
  moreover have "length (pages story) \<le> length (pages story)" by simp
  ultimately show ?thesis by blast
next
  case (concat_failed msg b as su outs)
  then have "exec_events (downloadVideo env (Some story) (Some pageEls) h f) =
      seg_execs h f outs (length (pages story)) @ [(concat_args, Throws msg)]"
    by (simp add: exec_events_simps)
  moreover have "length (pages story) \<le> length (pages story)" by simp
  ultimately show ?thesis by blast
next
  case (read_failed msg b c as su outs)
  then have "exec_events (downloadVideo env (Some story) (Some pageEls) h f) =
      seg_execs h f outs (length (pages story)) @ [(concat_args, Returns c)]"
    by (simp add: exec_events_simps)
  moreover have "length (pages story) \<le> length (pages story)" by simp
  ultimately show ?thesis by blast
next
  case (finished b c d as su outs)
  then have "exec_events (downloadVideo env (Some story) (Some pageEls) h f) =
      seg_execs h f outs (length (pages story)) @ [(concat_args, Returns c)]"
    by (simp add: exec_events_simps)
  moreover have "length (pages story) \<le> length (pages story)" by simp
  ultimately show ?thesis by blast
qed

lemma exec_in_run:
  assumes "Ext (Exec a) r \<in> set (downloadVideo env story bookRef h f)"
  shows "a = concat_args \<or> (\<exists>j. a = segment_cmd h f j)"
proof -
  from assms obtain st pageEls where s: "story = Some st" "bookRef = Some pageEls"
    by (cases story; cases bookRef) (auto simp: downloadVideo_def)
  from run_execs [of st env pageEls h f] obtain k outs rest where
    ex: "exec_events (downloadVideo env (Some st) (Some pageEls) h f) = seg_execs h f outs k @ rest"
    and rest: "rest = [] \<or> (\<exists>msg. rest = [(segment_cmd h f k, Throws msg)]) \<or>
      (\<exists>r. rest = [(concat_args, r)])"
    by blast
  from assms s have "(a, r) \<in> set (seg_execs h f outs k @ rest)"
    by (simp add: exec_events_mem ex)
  with rest show ?thesis by (auto simp: seg_execs_def)
qed

lemma asset_event_facts:
  assumes "list_all asset_event as" and "Ext c r \<in> set as"
  shows "(\<exists>t. c = GenerateAudio t) \<or> (\<exists>i. c = Html2canvas i)"
  using assms by (auto simp: list_all_iff asset_event_def narration_event_def capture_event_def)

lemma setup_event_facts:
  assumes "list_all setup_event su" and "Ext c r \<in> set su"
  shows "(\<exists>u t. c = ToBlobURL u t) \<or> (\<exists>a b. c = Load a b) \<or>
         (\<exists>n b. c = WriteFile n b \<and> n \<noteq> ''list.txt'') \<or> (\<exists>u. c = Fetch u)"
  using assms by (auto simp: list_all_iff setup_event_def)

lemma seg_event_facts:
  assumes "e \<in> set (seg_events h f outs i k)"
  shows "\<exists>j b. e = Ext (Exec (segment_cmd h f j)) (Returns b)"
  using assms by (auto simp: seg_events_def)


lemma manifest_written:
  assumes "Ext (WriteFile ''list.txt'' content) r \<in>
           set (downloadVideo env (Some story) (Some pageEls) h f)"
  shows "content = join newline (manifest_lines (length (pages story))) \<and>
         (\<exists>outs rest.
            exec_events (downloadVideo env (Some story) (Some pageEls) h f) =
              seg_execs h f outs (length (pages story)) @ rest \<and>
            (rest = [] \<or> (\<exists>r'. rest = [(concat_args, r')])))"
proof -
  have n1: "Ext (WriteFile ''list.txt'' content) r \<notin> set as" if "list_all asset_event as" for as
    using that asset_event_facts [of as "WriteFile ''list.txt'' content" r] by auto
  have n2: "Ext (WriteFile ''list.txt'' content) r \<notin> set su" if "list_all setup_event su" for su
    using that setup_event_facts [of su "WriteFile ''list.txt'' content" r] by auto
  have n3: "Ext (WriteFile ''list.txt'' content) r \<notin> set (seg_events h f outs 0 k)" for outs k
    using seg_event_facts [of "Ext (WriteFile ''list.txt'' content) r" h f outs 0 k] by auto
  show ?thesis
  proof (cases rule: downloadVideo_cases [of env story pageEls h f])
    case (setup_failed msg as su)
    with assms n1 [of as] n2 [of su] n3 show ?thesis by (auto simp: aborted_def)
  next
    case (encode_failed msg as su k outs)
    with assms n1 [of as] n2 [of su] n3 show ?thesis by (auto simp: aborted_def)
  next
    case (image_missing as su k outs)
    with assms n1 [of as] n2 [of su] n3 show ?thesis by (auto simp: aborted_def)
  next
    case (list_failed msg as su outs)
    with assms n1 [of as] n2 [of su] n3
    have "content = join newline (manifest_lines (length (pages story)))"
      by (auto simp: aborted_def write_list_def)
    moreover from list_failed
    have "exec_events (downloadVideo env (Some story) (Some pageEls) h f) =
        seg_execs h f outs (length (pages story)) @ []"
      by (simp add: exec_events_simps)
    ultimately show ?thesis by blast
  next
    case (concat_failed msg b as su outs)
    with assms n1 [of as] n2 [of su] n3
    have "content = join newline (manifest_lines (length (pages story)))"
      by (auto simp: aborted_def write_list_def)
    moreover from concat_failed
    have "exec_events (downloadVideo env (Some story) (Some pageEls) h f) =
        seg_execs h f outs (length (pages story)) @ [(concat_args, Throws msg)]"
      by (simp add: exec_events_simps)
    ultimately show ?thesis by blast
  next
    case (read_failed msg b c as su outs)
    with assms n1 [of as] n2 [of su] n3
    have "content = join newline (manifest_lines (length (pages story)))"
      by (auto simp: aborted_def write_list_def)
    moreover from read_failed
    have "exec_events (downloadVideo env (Some story) (Some pageEls) h f) =
        seg_execs h f outs (length (pages story)) @ [(concat_args, Returns c)]"
      by (simp add: exec_events_simps)
    ultimately show ?thesis by blast
  next
    case (finished b c d as su outs)
    with assms n1 [of as] n2 [of su] n3
    have "content = join newline (manifest_lines (length (pages story)))"
      by (auto simp: write_list_def)
    moreover from finished
    have "exec_events (downloadVideo env (Some story) (Some pageEls) h f) =
        seg_execs h f outs (length (pages story)) @ [(concat_args, Returns c)]"
      by (simp add: exec_events_simps)
    ultimately show ?thesis by blast
  qed
qed

lemma produced_seg_execs:
  "map (\<lambda>(a, r). last a) (filter (\<lambda>(a, r). a \<noteq> concat_args \<and> returns r) (seg_execs h f outs k)) =
   map (\<lambda>j. S (seg_name j)) [0..<k]"
  by (simp add: seg_execs_def filter_map o_def segment_cmd_not_concat last_segment_cmd)




subsection \<open>Concrete runs\<close>

lemmas run_defs =
  downloadVideo_def export_video_def generate_narration_def narrate_def bind_io_def
  ext_call_def return_io_def throw_io_def load_ffmpeg_def write_images_def write_audios_def
  write_audio_def load_whoosh_def concat_and_download_def offer_download_def or_default_def
  capture_pages.simps build_segments.simps Let_def

lemma never_throws_calm: "never_throws calm_env"
  by (simp add: never_throws_def calm_env_def split: call.splits)


lemma pages_two: "length (pages two_pages) = 2"
  by (simp add: two_pages_def)


lemma calm_run_two:
  "downloadVideo calm_env (Some two_pages) (Some 2) h f =
     [SetBusy True,
      Ext (GenerateAudio ''Once'') (Returns ''mp3''),
      Ext (GenerateAudio ''The end'') (Returns ''mp3''),
      Ext (Html2canvas 0) (Returns ''png''),
      Ext (Html2canvas 1) (Returns ''png''),
      Ext (ToBlobURL coreURL ''text/javascript'') (Returns []),
      Ext (ToBlobURL wasmURL ''application/wasm'') (Returns []),
      Ext (Load [] []) (Returns []),
      Ext (WriteFile ''page0.png'' ''png'') (Returns []),
      Ext (WriteFile ''page1.png'' ''png'') (Returns []),
      Ext (WriteFile ''audio0.mp3'' ''mp3'') (Returns []),
      Ext (WriteFile ''audio1.mp3'' ''mp3'') (Returns []),
      Ext (Fetch whooshURL) (Returns []),
      Ext (WriteFile ''whoosh.mp3'' []) (Returns []),
      Ext (Exec (segment_cmd h f 0)) (Returns []),
      Ext (Exec (segment_cmd h f 1)) (Returns []),
      Ext (WriteFile ''list.txt''
             (''ffconcat version 1.0'' @ newline @ ''file seg0.mp4'' @ newline @ ''file seg1.mp4''))
        (Returns []),
      Ext (Exec concat_args) (Returns []),
      Ext (ReadFile ''output.mp4'') (Returns ''video''),
      Download ''storybook.mp4'' ''video'',
      SetBusy False]"
  by (simp add: run_defs calm_env_def two_pages_def show_nat_0 show_nat_1 segment_cmd_def
      page_name_def seg_name_def upt_rec numeral_2_eq_2)



text \<open>
  The per-page command names no output duration: the hold time enters it only through
  the fade start and the delay of the page-turn sound, and the command ends with
  \<^verbatim>\<open>-shortest\<close>. How long the encoded segment is, is left to the encoder.
\<close>

lemma segment_cmd_names_no_duration:
  "option_value ''-t'' (segment_cmd h f j) = None \<and>
   option_value ''-to'' (segment_cmd h f j) = None \<and>
   option_value ''-frames:v'' (segment_cmd h f j) = None \<and>
   S ''-shortest'' \<in> set (segment_cmd h f j)"
  by (simp add: segment_cmd_def segment_args_def S_def page_name_def filter_complex_def)

section \<open>Properties\<close>



text \<open>
  C3. Whenever a run writes the concat list \<^verbatim>\<open>list.txt\<close>, its content, read line by
  line, is the header line followed by one line \<^verbatim>\<open>file seg<i>.mp4\<close> for each page index
  \<open>i\<close> from 0 to N - 1 in ascending order; these are exactly the output files of the
  per-page encodes that returned, in the order they were produced; the names are pairwise
  different; and no line is empty. When no call throws (and every page has its element)
  the list is written.
\<close>

theorem manifest_lists_segments_in_order:
  "(Ext (WriteFile ''list.txt'' content) r \<in>
      set (downloadVideo env (Some story) (Some pageEls) holdTime fadeTime) \<longrightarrow>
    split_on CHR 0x0A content =
      ''ffconcat version 1.0'' # map (\<lambda>i. ''file '' @ seg_name i) [0..<length (pages story)] \<and>
    produced_segments (downloadVideo env (Some story) (Some pageEls) holdTime fadeTime) =
      map (\<lambda>i. S (seg_name i)) [0..<length (pages story)] \<and>
    distinct (map seg_name [0..<length (pages story)]) \<and>
    [] \<notin> set (split_on CHR 0x0A content)) \<and>
   (never_throws env \<and> length (pages story) \<le> pageEls \<longrightarrow>
    (\<exists>written r'. Ext (WriteFile ''list.txt'' written) r' \<in>
       set (downloadVideo env (Some story) (Some pageEls) holdTime fadeTime)))"
proof (intro conjI impI)
  let ?N = "length (pages story)"
  let ?run = "downloadVideo env (Some story) (Some pageEls) holdTime fadeTime"
  assume "never_throws env \<and> ?N \<le> pageEls"
  with downloadVideo_success [of env story pageEls holdTime fadeTime]
  obtain as su outs b c d where
    "?run = SetBusy True # as @ su @ seg_events holdTime fadeTime outs 0 ?N @
       [write_list ?N (Returns b), Ext (Exec concat_args) (Returns c),
        Ext (ReadFile ''output.mp4'') (Returns d),
        Download (or_default (title story) ''storybook'' @ ''.mp4'') d, SetBusy False]"
    by blast
  then have "Ext (WriteFile ''list.txt'' (join newline (manifest_lines ?N))) (Returns b) \<in> set ?run"
    by (simp add: write_list_def)
  then show "\<exists>written r'. Ext (WriteFile ''list.txt'' written) r' \<in> set ?run"
    by blast
next
  let ?N = "length (pages story)"
  let ?run = "downloadVideo env (Some story) (Some pageEls) holdTime fadeTime"
  assume written: "Ext (WriteFile ''list.txt'' content) r \<in> set ?run"
  from manifest_written [OF written] obtain outs rest where
    content: "content = join newline (manifest_lines ?N)"
    and ex: "exec_events ?run = seg_execs holdTime fadeTime outs ?N @ rest"
    and rest: "rest = [] \<or> (\<exists>r'. rest = [(concat_args, r')])"
    by blast
  have lines: "split_on CHR 0x0A content = manifest_lines ?N"
    unfolding content by (rule manifest_split)
  then show "split_on CHR 0x0A content =
      ''ffconcat version 1.0'' # map (\<lambda>i. ''file '' @ seg_name i) [0..<?N]"
    by (simp add: manifest_lines_def)
  show "produced_segments ?run = map (\<lambda>i. S (seg_name i)) [0..<?N]"
    using rest by (auto simp: produced_segments_def ex produced_seg_execs)
  show "distinct (map seg_name [0..<?N])"
    by (rule distinct_seg_names)
  show "[] \<notin> set (split_on CHR 0x0A content)"
    unfolding lines by (auto simp: manifest_lines_def)
qed

theorem manifest_lists_segments_in_order_witness:
  "never_throws calm_env \<and> length (pages two_pages) \<le> 2 \<and>
   Ext (WriteFile ''list.txt''
         (''ffconcat version 1.0'' @ newline @ ''file seg0.mp4'' @ newline @ ''file seg1.mp4''))
     (Returns []) \<in> set (downloadVideo calm_env (Some two_pages) (Some 2) 4 0.5) \<and>
   split_on CHR 0x0A
     (''ffconcat version 1.0'' @ newline @ ''file seg0.mp4'' @ newline @ ''file seg1.mp4'') =
     [''ffconcat version 1.0'', ''file seg0.mp4'', ''file seg1.mp4''] \<and>
   produced_segments (downloadVideo calm_env (Some two_pages) (Some 2) 4 0.5) =
     [S ''seg0.mp4'', S ''seg1.mp4'']"
  using manifest_lists_segments_in_order [of
      "''ffconcat version 1.0'' @ newline @ ''file seg0.mp4'' @ newline @ ''file seg1.mp4''"
      "Returns []" calm_env two_pages 2 4 "0.5"]
  by (simp add: calm_run_two pages_two upt_0_2 seg_name_def show_nat_0 show_nat_1
      never_throws_calm)














text \<open>
  C9. Any two per-page encodes of one run use the video codec libx264, the audio codec
  aac and the pixel format yuv420p, and their command lines agree in every position
  except the image name (3), the narration name (5) and the output name (19).
\<close>

theorem segments_share_codec_parameters:
  assumes "Ext (Exec a) r \<in> set (downloadVideo env story bookRef holdTime fadeTime)"
    and "Ext (Exec b) r' \<in> set (downloadVideo env story bookRef holdTime fadeTime)"
    and "a \<noteq> concat_args" and "b \<noteq> concat_args"
  shows "option_value ''-c:v'' a = Some (S ''libx264'') \<and>
         option_value ''-c:a'' a = Some (S ''aac'') \<and>
         (\<exists>rest. option_value ''-filter_complex'' a =
            Some (Txt ''[0:v]format=yuv420p,fade=t=out:st='' # rest)) \<and>
         length a = length b \<and>
         (\<forall>k. k \<notin> {3, 5, 19} \<longrightarrow> a ! k = b ! k)"
proof -
  from exec_in_run [OF assms(1)] assms(3) obtain i where a: "a = segment_cmd holdTime fadeTime i"
    by blast
  from exec_in_run [OF assms(2)] assms(4) obtain j where b: "b = segment_cmd holdTime fadeTime j"
    by blast
  show ?thesis
    unfolding a b
    by (simp add: option_value_segment_cmd length_segment_cmd filter_complex_def
        segment_cmd_same_template del: insert_iff)
qed

theorem segments_share_codec_parameters_witness:
  "Ext (Exec (segment_cmd 4 0.5 0)) (Returns []) \<in>
     set (downloadVideo calm_env (Some two_pages) (Some 2) 4 0.5) \<and>
   Ext (Exec (segment_cmd 4 0.5 1)) (Returns []) \<in>
     set (downloadVideo calm_env (Some two_pages) (Some 2) 4 0.5) \<and>
   segment_cmd 4 0.5 0 \<noteq> concat_args \<and> segment_cmd 4 0.5 1 \<noteq> concat_args \<and>
   option_value ''-c:v'' (segment_cmd 4 0.5 0) = Some (S ''libx264'') \<and>
   option_value ''-c:a'' (segment_cmd 4 0.5 0) = Some (S ''aac'') \<and>
   length (segment_cmd 4 0.5 0) = length (segment_cmd 4 0.5 1) \<and>
   segment_cmd 4 0.5 0 ! 9 = segment_cmd 4 0.5 1 ! 9 \<and>
   segment_cmd 4 0.5 0 ! 19 \<noteq> segment_cmd 4 0.5 1 ! 19"
  using segments_share_codec_parameters [of "segment_cmd 4 0.5 0" "Returns []" calm_env
      "Some two_pages" "Some 2" 4 "0.5" "segment_cmd 4 0.5 1" "Returns []"]
  by (simp add: calm_run_two segment_cmd_not_concat option_value_segment_cmd length_segment_cmd
      segment_cmd_inputs S_def seg_name_eq_iff)

text \<open>
  C10. If no story is loaded or the rendered book element is absent, \<open>downloadVideo\<close>
  returns at once: it causes no event at all, so no collaborator is called, nothing is
  written, the busy flag is not touched, and neither a download nor an alert appears.
\<close>

theorem downloadVideo_without_story_or_book:
  assumes "story = None \<or> bookRef = None"
  shows "downloadVideo env story bookRef holdTime fadeTime = []"
  using assms by (auto simp: downloadVideo_def split: option.splits)

theorem downloadVideo_without_story_or_book_witness:
  "downloadVideo calm_env None (Some 1) 4 (1 / 2) = [] \<and>
   downloadVideo calm_env (Some one_page) None 4 (1 / 2) = []"
  using downloadVideo_without_story_or_book [of None "Some 1" calm_env 4 "1 / 2"]
    downloadVideo_without_story_or_book [of "Some one_page" None calm_env 4 "1 / 2"]
  by simp

end
